theory Spec2Isabelle
  imports Complex_Main "HOL-Library.Word" "HOL-Library.AList"
begin

unbundle bit_operations_syntax

section \<open>Data model of \<^verbatim>\<open>ugly_clearness.py\<close>\<close>

text \<open>
  Python values are embedded as follows.
  \<^item> \<^verbatim>\<open>int\<close> is unbounded: \<open>int\<close>; \<^verbatim>\<open>//\<close>, \<^verbatim>\<open>%\<close>, \<^verbatim>\<open>&\<close>, \<^verbatim>\<open>^\<close>, \<^verbatim>\<open><<\<close> and \<^verbatim>\<open>>>\<close> are
    \<open>div\<close>, \<open>mod\<close>, \<open>AND\<close>, \<open>XOR\<close>, \<open>push_bit\<close> and \<open>drop_bit\<close> on \<open>int\<close> (floor
    division, two's complement of unbounded width).
  \<^item> \<^verbatim>\<open>str\<close> is a sequence of Unicode code points: \<open>nat list\<close>, so that \<open>length\<close>
    counts what \<^verbatim>\<open>len\<close> counts. \<open>ascii\<close> turns an ASCII literal into such a string.
  \<^item> \<^verbatim>\<open>float\<close> tones are the finite floats, embedded in \<open>real\<close>. The program only
    compares tones, clamps them to \<open>[0, 1]\<close>, doubles the clamped value and truncates
    it; each of these is exact on finite floats, so no rounding is lost. Infinities and
    NaN are outside the model.
  \<^item> A method that mutates its object takes the object's state and returns the new
    one; an exception is the \<open>Inl\<close> branch of a sum.
\<close>

type_synonym pystr = "nat list"

definition ascii :: "string \<Rightarrow> pystr" where
  "ascii s = map of_char s"

record Mark =
  mark_x :: int
  mark_y :: int
  mark_tone :: real
  mark_tag :: pystr

record Layer =
  marks :: "Mark list"

record Field =
  width :: int
  height :: int
  layers :: "Layer list"

datatype error = IndexError

definition Layer_add :: "Layer \<Rightarrow> Mark list \<Rightarrow> Layer" where
  \<comment> \<open>\<^verbatim>\<open>self.marks.extend(m)\<close>\<close>
  "Layer_add layer ms = layer\<lparr>marks := marks layer @ ms\<rparr>"

definition deposit :: "Field \<Rightarrow> Layer \<Rightarrow> Field" where
  \<comment> \<open>\<^verbatim>\<open>self.layers.append(layer)\<close>\<close>
  "deposit fld layer = fld\<lparr>layers := layers fld @ [layer]\<rparr>"

section \<open>Lexicon\<close>

definition ORDER :: "pystr list" where
  "ORDER = [ascii ''gap'', ascii ''ask'', ascii ''answer'', ascii ''turn'', ascii ''doubt'',
            ascii ''care'', ascii ''resolve'']"

definition PALETTE :: "pystr \<rightharpoonup> pystr" where
  \<comment> \<open>the base characters are U+0020, U+00B7, U+2014, U+2227, U+007E, U+002A, U+220E\<close>
  "PALETTE = map_of
     [(ascii ''gap'', [32]),
      (ascii ''ask'', [183]),
      (ascii ''answer'', [8212]),
      (ascii ''turn'', [8743]),
      (ascii ''doubt'', [126]),
      (ascii ''care'', [42]),
      (ascii ''resolve'', [8718])]"

definition py_int :: "real \<Rightarrow> int" where
  \<comment> \<open>\<^verbatim>\<open>int(x)\<close> on a float truncates towards zero\<close>
  "py_int r = (if 0 \<le> r then \<lfloor>r\<rfloor> else \<lceil>r\<rceil>)"

definition py_repeat :: "pystr \<Rightarrow> int \<Rightarrow> pystr" where
  \<comment> \<open>\<^verbatim>\<open>s * k\<close>: the empty string when \<open>k \<le> 0\<close>\<close>
  "py_repeat s k = concat (replicate (nat k) s)"

definition symbol :: "pystr \<Rightarrow> real \<Rightarrow> pystr" where
  "symbol tag tone =
     (let base = (case PALETTE tag of Some b \<Rightarrow> b | None \<Rightarrow> ascii ''?'');
          k = 1 + py_int (max 0 (min 1 tone) * 2)
      in py_repeat base k)"

section \<open>Dynamics\<close>

definition perturb :: "int \<Rightarrow> int \<Rightarrow> int \<Rightarrow> int \<times> int" where
  "perturb x y seed =
     (let r = (seed * 6364136223846793005 + 1) AND 4294967295;
          dx = drop_bit 8 r mod 3 - 1;
          dy = drop_bit 16 r mod 3 - 1
      in (x + dx, y + dy))"

fun fold_trace_from :: "int \<Rightarrow> pystr list \<Rightarrow> int" where
  \<comment> \<open>the loop of \<^verbatim>\<open>fold_trace\<close>, from the accumulator \<open>h\<close>\<close>
  "fold_trace_from h [] = h"
| "fold_trace_from h (t # ts) =
     fold_trace_from ((push_bit 5 h - h) XOR (case t of [] \<Rightarrow> 0 | c # _ \<Rightarrow> int c)) ts"

definition fold_trace :: "pystr list \<Rightarrow> int" where
  "fold_trace trace = fold_trace_from 0 trace"


section \<open>Field.render\<close>

type_synonym cell = "real \<times> pystr"

definition list_get :: "'a list \<Rightarrow> int \<Rightarrow> error + 'a" where
  \<comment> \<open>\<^verbatim>\<open>xs[i]\<close>: an index below zero counts from the end, one out of range raises\<close>
  "list_get xs i =
     (if 0 \<le> i \<and> i < int (length xs) then Inr (xs ! nat i)
      else if - int (length xs) \<le> i \<and> i < 0 then Inr (xs ! nat (int (length xs) + i))
      else Inl IndexError)"

definition list_set :: "'a list \<Rightarrow> int \<Rightarrow> 'a \<Rightarrow> error + 'a list" where
  \<comment> \<open>\<^verbatim>\<open>xs[i] = v\<close>\<close>
  "list_set xs i v =
     (if 0 \<le> i \<and> i < int (length xs) then Inr (xs[nat i := v])
      else if - int (length xs) \<le> i \<and> i < 0 then Inr (xs[nat (int (length xs) + i) := v])
      else Inl IndexError)"

text \<open>
  The state of a call of \<^verbatim>\<open>render\<close>: the Field it is called on and its local grid.
\<close>

record render_state =
  self :: Field
  grid :: "cell list list"

definition blank_grid :: "Field \<Rightarrow> cell list list" where
  \<comment> \<open>line 50; \<^verbatim>\<open>range\<close> of a negative number is empty\<close>
  "blank_grid fld = replicate (nat (height fld)) (replicate (nat (width fld)) (0, ascii '' ''))"

definition render_mark :: "Mark \<Rightarrow> render_state \<Rightarrow> error + render_state" where
  \<comment> \<open>lines 53 to 56. The row read by \<^verbatim>\<open>grid[m.y]\<close> is the grid's own row object, so
      the assignment to \<^verbatim>\<open>grid[m.y][m.x]\<close> changes that row of the grid.\<close>
  "render_mark m st =
     (if 0 \<le> mark_x m \<and> mark_x m < width (self st)
         \<and> 0 \<le> mark_y m \<and> mark_y m < height (self st) then
        (case list_get (grid st) (mark_y m) of
           Inl e \<Rightarrow> Inl e
         | Inr row \<Rightarrow>
            (case list_get row (mark_x m) of
               Inl e \<Rightarrow> Inl e
             | Inr (old_tone, old_ch) \<Rightarrow>
                 if mark_tone m \<ge> old_tone then
                   (case list_set row (mark_x m)
                           (mark_tone m, symbol (mark_tag m) (mark_tone m)) of
                      Inl e \<Rightarrow> Inl e
                    | Inr row' \<Rightarrow>
                        (case list_set (grid st) (mark_y m) row' of
                           Inl e \<Rightarrow> Inl e
                         | Inr g' \<Rightarrow> Inr (st\<lparr>grid := g'\<rparr>)))
                 else Inr st))
      else Inr st)"

fun render_marks :: "Mark list \<Rightarrow> render_state \<Rightarrow> error + render_state" where
  \<comment> \<open>\<^verbatim>\<open>for m in layer.marks\<close>\<close>
  "render_marks [] st = Inr st"
| "render_marks (m # ms) st =
     (case render_mark m st of Inl e \<Rightarrow> Inl e | Inr st' \<Rightarrow> render_marks ms st')"

fun render_layers :: "Layer list \<Rightarrow> render_state \<Rightarrow> error + render_state" where
  \<comment> \<open>\<^verbatim>\<open>for layer in self.layers\<close>\<close>
  "render_layers [] st = Inr st"
| "render_layers (layer # ls) st =
     (case render_marks (marks layer) st of Inl e \<Rightarrow> Inl e | Inr st' \<Rightarrow> render_layers ls st')"

definition composite :: "Field \<Rightarrow> error + render_state" where
  \<comment> \<open>lines 50 to 56: the grid after every layer has been composed\<close>
  "composite fld = render_layers (layers fld) \<lparr>self = fld, grid = blank_grid fld\<rparr>"

definition isspace :: "nat \<Rightarrow> bool" where
  \<comment> \<open>the code points \<^verbatim>\<open>str.isspace\<close> accepts, which \<^verbatim>\<open>rstrip()\<close> removes\<close>
  "isspace c \<longleftrightarrow>
     (9 \<le> c \<and> c \<le> 13) \<or> (28 \<le> c \<and> c \<le> 32) \<or> c = 133 \<or> c = 160 \<or> c = 5760
     \<or> (8192 \<le> c \<and> c \<le> 8202) \<or> c = 8232 \<or> c = 8233 \<or> c = 8239 \<or> c = 8287
     \<or> c = 12288"

definition rstrip :: "pystr \<Rightarrow> pystr" where
  "rstrip s = rev (dropWhile isspace (rev s))"

fun join :: "pystr \<Rightarrow> pystr list \<Rightarrow> pystr" where
  \<comment> \<open>\<^verbatim>\<open>sep.join(parts)\<close>\<close>
  "join sep [] = []"
| "join sep [p] = p"
| "join sep (p # q # ps) = p @ sep @ join sep (q # ps)"

definition legend_text :: pystr where
  \<comment> \<open>line 60; the tone 0.7 doubles to a value between 1 and 2 as a float and as 7/10\<close>
  "legend_text =
     10 # ascii '' legend: ''
       @ join (ascii ''  '')
           (map (\<lambda>t. symbol t (7/10) @ ascii ''='' @ t)
              (filter (\<lambda>t. t \<noteq> ascii ''gap'') ORDER))"

definition render_text :: "cell list list \<Rightarrow> bool \<Rightarrow> pystr" where
  \<comment> \<open>lines 57 to 61\<close>
  "render_text g legend =
     (let lines = map (\<lambda>row. rstrip (concat (map snd row))) g;
          s = join [10] lines
      in if legend then s @ legend_text else s)"

definition render :: "Field \<Rightarrow> bool \<Rightarrow> error + (pystr \<times> Field)" where
  \<comment> \<open>the returned string, and the Field as the call leaves it\<close>
  "render fld legend =
     (case composite fld of
        Inl e \<Rightarrow> Inl e
      | Inr st \<Rightarrow> Inr (render_text (grid st) legend, self st))"

text \<open>Reading one cell of a grid, and a grid with one cell replaced (for statements).\<close>

definition cell_at :: "cell list list \<Rightarrow> int \<Rightarrow> int \<Rightarrow> cell" where
  "cell_at g cx cy = g ! nat cy ! nat cx"

definition with_cell :: "cell list list \<Rightarrow> int \<Rightarrow> int \<Rightarrow> cell \<Rightarrow> cell list list" where
  "with_cell g cx cy c = g[nat cy := (g ! nat cy)[nat cx := c]]"

definition in_bounds :: "Field \<Rightarrow> Mark \<Rightarrow> bool" where
  "in_bounds fld m \<longleftrightarrow>
     0 \<le> mark_x m \<and> mark_x m < width fld \<and> 0 \<le> mark_y m \<and> mark_y m < height fld"

section \<open>Makers\<close>

definition advance :: "pystr \<Rightarrow> int \<Rightarrow> int \<Rightarrow> int \<times> int \<Rightarrow> int \<times> int" where
  \<comment> \<open>lines 135 to 148: the step of the running position at index \<open>i\<close>; a Python
      \<^verbatim>\<open>bool\<close> counts as 1 or 0 in arithmetic\<close>
  "advance tag stride i p =
     (case p of (x, y) \<Rightarrow>
        if tag = ascii ''ask'' then (x + stride, y - (if i mod 2 = 0 then 1 else 0))
        else if tag = ascii ''answer'' then (x + stride, y + (if i mod 3 = 0 then 1 else 0))
        else if tag = ascii ''turn'' then
          (x + (if i mod 2 = 0 then 1 else 0), y + (if i mod 2 \<noteq> 0 then 1 else - 1))
        else if tag = ascii ''doubt'' then
          (x + stride, y + (if (i div 2) mod 2 \<noteq> 0 then 1 else - 1))
        else if tag = ascii ''care'' then (x + stride, y + 0)
        else if tag = ascii ''resolve'' then (x + stride, y + (if i \<noteq> 0 then 0 else 0))
        else (x + stride, y))"

definition py_range :: "int \<Rightarrow> int list" where
  \<comment> \<open>\<^verbatim>\<open>range(n)\<close>\<close>
  "py_range n = [0..n - 1]"

fun inscribe_loop ::
  "int list \<Rightarrow> pystr \<Rightarrow> int \<Rightarrow> real \<Rightarrow> int \<times> int \<times> Layer \<Rightarrow> int \<times> int \<times> Layer" where
  \<comment> \<open>lines 131 to 148, over the indices still to come; the state is \<open>(x, y, layer)\<close>\<close>
  "inscribe_loop [] tag stride tone st = st"
| "inscribe_loop (i # rest) tag stride tone (x, y, layer) =
     (case perturb x y (i + fold_trace [tag]) of
        (px, py) \<Rightarrow>
          inscribe_loop rest tag stride tone
            (case advance tag stride i (x, y) of
               (x', y') \<Rightarrow>
                 (x', y',
                  Layer_add layer
                    [\<lparr>mark_x = px, mark_y = py, mark_tone = tone, mark_tag = tag\<rparr>])))"

definition inscribe ::
  "Field \<Rightarrow> int \<times> int \<Rightarrow> int \<Rightarrow> pystr \<Rightarrow> int \<Rightarrow> real \<Rightarrow> Layer \<times> Field" where
  \<comment> \<open>the returned layer, and the Field after the deposit\<close>
  "inscribe fld origin steps tag stride tone =
     (case origin of
        (ox, oy) \<Rightarrow>
          (case inscribe_loop (py_range steps) tag stride tone (ox, oy, \<lparr>marks = []\<rparr>) of
             (x, y, layer) \<Rightarrow> (layer, deposit fld layer)))"

text \<open>
  The path as the specification words it: the running position before step \<open>i\<close>,
  starting at the origin and advanced by the step rule of the tag.
\<close>

fun path_pos :: "pystr \<Rightarrow> int \<Rightarrow> int \<times> int \<Rightarrow> nat \<Rightarrow> int \<times> int" where
  "path_pos tag stride origin 0 = origin"
| "path_pos tag stride origin (Suc i) =
     advance tag stride (int i) (path_pos tag stride origin i)"

text \<open>
  The state of a call of \<^verbatim>\<open>braid\<close>: the Fields alive at the call (it is given none),
  its argument layers, and its locals. The dictionary \<^verbatim>\<open>bag\<close> keeps its keys in the
  order of their first insertion, so it is an association list; \<open>AList.update\<close>
  replaces the value of a key in place and appends a new key at the end.
\<close>

record braid_state =
  live_fields :: "Field list"
  args :: "Layer list"
  bag :: "((int \<times> int) \<times> Mark) list"
  merged :: Layer

definition braid_mark :: "Mark \<Rightarrow> braid_state \<Rightarrow> braid_state" where
  \<comment> \<open>lines 158 to 160\<close>
  "braid_mark m st =
     (let key = (mark_x m, mark_y m) in
      case map_of (bag st) key of
        None \<Rightarrow> st\<lparr>bag := AList.update key m (bag st)\<rparr>
      | Some old \<Rightarrow>
          if mark_tone old \<le> mark_tone m then st\<lparr>bag := AList.update key m (bag st)\<rparr>
          else st)"

fun braid_marks :: "Mark list \<Rightarrow> braid_state \<Rightarrow> braid_state" where
  \<comment> \<open>\<^verbatim>\<open>for m in layer.marks\<close>\<close>
  "braid_marks [] st = st"
| "braid_marks (m # ms) st = braid_marks ms (braid_mark m st)"

fun braid_layers :: "Layer list \<Rightarrow> braid_state \<Rightarrow> braid_state" where
  \<comment> \<open>\<^verbatim>\<open>for layer in layers\<close>\<close>
  "braid_layers [] st = st"
| "braid_layers (layer # ls) st = braid_layers ls (braid_marks (marks layer) st)"

definition braid :: "Layer list \<Rightarrow> Field list \<Rightarrow> braid_state" where
  \<comment> \<open>the body of \<^verbatim>\<open>braid\<close>, from its entry to its \<^verbatim>\<open>return\<close>; the layer it returns
      is \<open>merged\<close> of the final state\<close>
  "braid ls fs =
     (let st = \<lparr>live_fields = fs, args = ls, bag = [], merged = \<lparr>marks = []\<rparr>\<rparr>;
          st = braid_layers (args st) st
      in st\<lparr>merged := (merged st)\<lparr>marks := map snd (bag st)\<rparr>\<rparr>)"

text \<open>
  The compositing rule as the specification words it. \<open>all_marks\<close> is the scan order:
  the layers from left to right, each layer's marks in their order. The mark at index
  \<open>i\<close> wins the coordinate \<open>c\<close> when it lies there, no mark there has a higher tone,
  and every mark there that is processed later has a strictly lower tone.
\<close>

definition coord :: "Mark \<Rightarrow> int \<times> int" where
  "coord m = (mark_x m, mark_y m)"

definition all_marks :: "Layer list \<Rightarrow> Mark list" where
  "all_marks ls = concat (map marks ls)"

definition wins :: "Mark list \<Rightarrow> int \<times> int \<Rightarrow> nat \<Rightarrow> bool" where
  "wins ms c i \<longleftrightarrow>
     i < length ms \<and> coord (ms ! i) = c
     \<and> (\<forall>j \<in> {..<length ms}. coord (ms ! j) = c \<longrightarrow>
           mark_tone (ms ! j) \<le> mark_tone (ms ! i)
           \<and> (i < j \<longrightarrow> mark_tone (ms ! j) < mark_tone (ms ! i)))"

text \<open>
  The mark that the specification places at index \<open>i\<close> of an inscribed path: the
  running position before step \<open>i\<close>, perturbed with the seed \<open>i + fold_trace [tag]\<close>.
\<close>

definition path_mark :: "pystr \<Rightarrow> int \<Rightarrow> real \<Rightarrow> int \<times> int \<Rightarrow> nat \<Rightarrow> Mark" where
  "path_mark tag stride tone origin i =
     (case path_pos tag stride origin i of
        (x, y) \<Rightarrow>
          (case perturb x y (int i + fold_trace [tag]) of
             (px, py) \<Rightarrow> \<lparr>mark_x = px, mark_y = py, mark_tone = tone, mark_tag = tag\<rparr>))"

section \<open>Auxiliary notions of the proofs\<close>

text \<open>The shape of the grid of a Field: \<open>height\<close> rows of \<open>width\<close> cells each.\<close>

definition shaped :: "Field \<Rightarrow> cell list list \<Rightarrow> bool" where
  "shaped fld g \<longleftrightarrow>
     length g = nat (height fld) \<and> (\<forall>i < length g. length (g ! i) = nat (width fld))"

text \<open>
  The effect of one step of \<^verbatim>\<open>braid\<close> on the dictionary alone, and the invariant of
  the dictionary after the marks \<open>ms\<close> have been scanned: its keys are distinct, a
  coordinate without an entry holds no mark, and the entry of a coordinate is the mark
  that wins it.
\<close>

definition bag_put ::
  "Mark \<Rightarrow> ((int \<times> int) \<times> Mark) list \<Rightarrow> ((int \<times> int) \<times> Mark) list" where
  "bag_put m b =
     (case map_of b (coord m) of
        None \<Rightarrow> AList.update (coord m) m b
      | Some old \<Rightarrow> if mark_tone old \<le> mark_tone m then AList.update (coord m) m b else b)"

definition bag_inv :: "Mark list \<Rightarrow> ((int \<times> int) \<times> Mark) list \<Rightarrow> bool" where
  "bag_inv ms b \<longleftrightarrow>
     distinct (map fst b)
     \<and> (\<forall>c. map_of b c = None \<longrightarrow> c \<notin> coord ` set ms)
     \<and> (\<forall>c r. map_of b c = Some r \<longrightarrow> (\<exists>i. wins ms c i \<and> r = ms ! i))"

section \<open>Concrete inputs\<close>

definition m_care :: Mark where
  "m_care = \<lparr>mark_x = 0, mark_y = 0, mark_tone = 1/4, mark_tag = ascii ''care''\<rparr>"

definition m_turn :: Mark where
  "m_turn = \<lparr>mark_x = 0, mark_y = 0, mark_tone = 3/4, mark_tag = ascii ''turn''\<rparr>"

definition fld_override :: Field where
  "fld_override = \<lparr>width = 1, height = 1,
     layers = [\<lparr>marks = [m_turn]\<rparr>, \<lparr>marks = []\<rparr>, \<lparr>marks = [m_care]\<rparr>]\<rparr>"

definition m_neg1 :: Mark where
  "m_neg1 = \<lparr>mark_x = 0, mark_y = 0, mark_tone = - 1, mark_tag = ascii ''ask''\<rparr>"

definition m_neg2 :: Mark where
  "m_neg2 = \<lparr>mark_x = 0, mark_y = 0, mark_tone = - 1/2, mark_tag = ascii ''ask''\<rparr>"

definition fld_negative :: Field where
  "fld_negative = \<lparr>width = 1, height = 1,
     layers = [\<lparr>marks = [m_neg1]\<rparr>, \<lparr>marks = [m_neg2]\<rparr>]\<rparr>"

definition m_far :: Mark where
  "m_far = \<lparr>mark_x = 5, mark_y = 0, mark_tone = 1, mark_tag = ascii ''resolve''\<rparr>"

definition fld_far :: Field where
  "fld_far = \<lparr>width = 1, height = 1, layers = [\<lparr>marks = [m_turn, m_far]\<rparr>]\<rparr>"

definition m_tie1 :: Mark where
  "m_tie1 = \<lparr>mark_x = 0, mark_y = 0, mark_tone = 1/2, mark_tag = ascii ''ask''\<rparr>"

definition m_tie2 :: Mark where
  "m_tie2 = \<lparr>mark_x = 0, mark_y = 0, mark_tone = 1/2, mark_tag = ascii ''care''\<rparr>"

definition fld_tie :: Field where
  "fld_tie = \<lparr>width = 1, height = 1, layers = [\<lparr>marks = [m_tie1]\<rparr>, \<lparr>marks = [m_tie2]\<rparr>]\<rparr>"

definition m_low1 :: Mark where
  "m_low1 = \<lparr>mark_x = 0, mark_y = 0, mark_tone = - 1/2, mark_tag = ascii ''ask''\<rparr>"

definition m_low2 :: Mark where
  "m_low2 = \<lparr>mark_x = 0, mark_y = 0, mark_tone = - 1/2, mark_tag = ascii ''care''\<rparr>"

definition fld_low :: Field where
  "fld_low = \<lparr>width = 1, height = 1, layers = [\<lparr>marks = [m_low1]\<rparr>, \<lparr>marks = [m_low2]\<rparr>]\<rparr>"

definition fld_empty :: Field where
  "fld_empty = \<lparr>width = 84, height = 20, layers = []\<rparr>"

definition layer_ask3 :: Layer where
  "layer_ask3 = \<lparr>marks =
     [\<lparr>mark_x = 2, mark_y = 3, mark_tone = 9/20, mark_tag = ascii ''ask''\<rparr>,
      \<lparr>mark_x = 4, mark_y = 2, mark_tone = 9/20, mark_tag = ascii ''ask''\<rparr>,
      \<lparr>mark_x = 3, mark_y = 3, mark_tone = 9/20, mark_tag = ascii ''ask''\<rparr>]\<rparr>"






section \<open>The symbol of a tag and a tone\<close>

lemma PALETTE_single: "PALETTE tag = Some b \<Longrightarrow> \<exists>c. b = [c]"
  by (auto simp: PALETTE_def split: if_splits)

lemma base_single: "\<exists>c. (case PALETTE tag of Some b \<Rightarrow> b | None \<Rightarrow> ascii ''?'') = [c]"
proof (cases "PALETTE tag")
  case None
  then show ?thesis by (simp add: ascii_def)
next
  case (Some b)
  then show ?thesis using PALETTE_single [OF Some] by auto
qed

lemma py_int_clamped: "py_int (max 0 (min 1 tone) * 2) = \<lfloor>max 0 (min 1 tone) * 2\<rfloor>"
  by (simp add: py_int_def)

lemma level_cases:
  fixes c :: real
  shows "0 \<le> c \<Longrightarrow> c < 1/2 \<Longrightarrow> \<lfloor>c * 2\<rfloor> = 0"
    and "1/2 \<le> c \<Longrightarrow> c < 1 \<Longrightarrow> \<lfloor>c * 2\<rfloor> = 1"
  by (simp_all add: floor_eq_iff)

lemma length_symbol: "int (length (symbol tag tone)) = 1 + \<lfloor>max 0 (min 1 tone) * 2\<rfloor>"
proof -
  obtain c where c: "(case PALETTE tag of Some b \<Rightarrow> b | None \<Rightarrow> ascii ''?'') = [c]"
    using base_single by blast
  have "0 \<le> \<lfloor>max 0 (min 1 tone) * 2\<rfloor>"
    by simp
  then show ?thesis
    unfolding symbol_def Let_def c py_repeat_def py_int_clamped by simp
qed

text \<open>
  C2 (as the code has it). For every tag and tone, \<open>symbol\<close> returns the tag's base
  character (\<open>?\<close> for a tag outside the palette) repeated \<open>k\<close> times with
  \<open>k = 1 + floor (clamped tone * 2)\<close>; \<open>k\<close> is 1 for a clamped tone in \<open>[0, 1/2)\<close>,
  2 for a clamped tone in \<open>[1/2, 1)\<close> and 3 for the clamped tone 1.
\<close>

theorem symbol_levels:
  fixes tag :: pystr and tone :: real
  shows "(\<exists>ch. (case PALETTE tag of Some b \<Rightarrow> b | None \<Rightarrow> ascii ''?'') = [ch]
            \<and> symbol tag tone = replicate (nat (1 + \<lfloor>max 0 (min 1 tone) * 2\<rfloor>)) ch)
         \<and> 0 \<le> max 0 (min 1 tone) \<and> max 0 (min 1 tone) \<le> 1
         \<and> (max 0 (min 1 tone) < 1/2 \<longrightarrow> 1 + \<lfloor>max 0 (min 1 tone) * 2\<rfloor> = 1)
         \<and> (1/2 \<le> max 0 (min 1 tone) \<and> max 0 (min 1 tone) < 1
              \<longrightarrow> 1 + \<lfloor>max 0 (min 1 tone) * 2\<rfloor> = 2)
         \<and> (max 0 (min 1 tone) = 1 \<longrightarrow> 1 + \<lfloor>max 0 (min 1 tone) * 2\<rfloor> = 3)"
proof -
  define c where "c = max 0 (min 1 tone)"
  obtain ch where ch: "(case PALETTE tag of Some b \<Rightarrow> b | None \<Rightarrow> ascii ''?'') = [ch]"
    using base_single by blast
  have "symbol tag tone = replicate (nat (1 + \<lfloor>c * 2\<rfloor>)) ch"
    unfolding symbol_def Let_def ch py_repeat_def py_int_clamped c_def by simp
  with ch have rep: "\<exists>ch. (case PALETTE tag of Some b \<Rightarrow> b | None \<Rightarrow> ascii ''?'') = [ch]
           \<and> symbol tag tone = replicate (nat (1 + \<lfloor>c * 2\<rfloor>)) ch"
    by blast
  have range: "0 \<le> c \<and> c \<le> 1"
    by (simp add: c_def)
  have low: "c < 1/2 \<longrightarrow> 1 + \<lfloor>c * 2\<rfloor> = 1"
    using range level_cases(1) [of c] by simp
  have mid: "1/2 \<le> c \<and> c < 1 \<longrightarrow> 1 + \<lfloor>c * 2\<rfloor> = 2"
    using level_cases(2) [of c] by simp
  have top: "c = 1 \<longrightarrow> 1 + \<lfloor>c * 2\<rfloor> = 3"
    by simp
  from rep range low mid top show ?thesis
    unfolding c_def by blast
qed

theorem symbol_levels_witness:
  "symbol (ascii ''ask'') (3/8) = replicate 1 183
   \<and> symbol (ascii ''turn'') (3/4) = replicate 2 8743
   \<and> symbol (ascii ''resolve'') 1 = replicate 3 8718"
  using symbol_levels [of "ascii ''ask''" "3/8"]
        symbol_levels [of "ascii ''turn''" "3/4"]
        symbol_levels [of "ascii ''resolve''" 1]
  by (simp add: PALETTE_def ascii_def)

text \<open>
  C2 as the specification words it puts the steps at 1/3 and 2/3. The tone 3/8 lies in
  \<open>[1/3, 2/3)\<close> and is rendered with one character, not two.
\<close>

theorem symbol_thirds_counterexample:
  "(1/3 :: real) \<le> 3/8 \<and> (3/8 :: real) < 2/3
   \<and> max 0 (min 1 (3/8 :: real)) = 3/8
   \<and> symbol (ascii ''ask'') (3/8) = [183]
   \<and> length (symbol (ascii ''ask'') (3/8)) \<noteq> 2"
  by (simp add: symbol_def PALETTE_def ascii_def py_int_def py_repeat_def)

text \<open>
  C7. For a fixed tag the length of \<open>symbol tag t\<close> does not decrease as \<open>t\<close> grows
  over \<open>[0, 1]\<close>, and for \<open>t\<close> in \<open>[0, 1]\<close> the length is 1, 2 or 3.
\<close>

theorem symbol_length_monotone:
  fixes s t :: real
  shows "(0 \<le> s \<and> s \<le> t \<and> t \<le> 1 \<longrightarrow> length (symbol tag s) \<le> length (symbol tag t))
         \<and> (0 \<le> t \<and> t \<le> 1 \<longrightarrow> length (symbol tag t) \<in> {1, 2, 3})"
proof (intro conjI impI)
  assume h: "0 \<le> s \<and> s \<le> t \<and> t \<le> 1"
  then have "\<lfloor>max 0 (min 1 s) * 2\<rfloor> \<le> \<lfloor>max 0 (min 1 t) * 2\<rfloor>"
    by (intro floor_mono) simp
  then have "int (length (symbol tag s)) \<le> int (length (symbol tag t))"
    by (simp add: length_symbol)
  then show "length (symbol tag s) \<le> length (symbol tag t)"
    by simp
next
  assume h: "0 \<le> t \<and> t \<le> 1"
  then have "0 \<le> \<lfloor>t * 2\<rfloor>" and "\<lfloor>t * 2\<rfloor> \<le> 2"
    by (simp_all add: floor_le_iff le_floor_iff)
  moreover from h have "int (length (symbol tag t)) = 1 + \<lfloor>t * 2\<rfloor>"
    by (simp add: length_symbol)
  ultimately have "1 \<le> length (symbol tag t)" and "length (symbol tag t) \<le> 3"
    by linarith+
  then have "length (symbol tag t) = 1 \<or> length (symbol tag t) = 2
      \<or> length (symbol tag t) = 3"
    by arith
  then show "length (symbol tag t) \<in> {1, 2, 3}"
    by simp
qed

theorem symbol_length_monotone_witness:
  "length (symbol (ascii ''care'') (1/4)) \<le> length (symbol (ascii ''care'') (1/2))
   \<and> length (symbol (ascii ''care'') (1/2)) \<in> {1, 2, 3}"
  using symbol_length_monotone [of "1/4" "1/2" "ascii ''care''"]
  by simp

section \<open>Perturbation\<close>

text \<open>
  C9. The drift of \<open>perturb\<close> depends on the seed alone: \<open>perturb x y seed\<close> is
  \<open>(x + dx, y + dy)\<close> with \<open>(dx, dy) = perturb 0 0 seed\<close>, the differences at two
  positions agree componentwise, and \<open>dx\<close> and \<open>dy\<close> are \<open>-1\<close>, 0 or 1.
\<close>

theorem perturb_drift:
  "perturb x y seed = (x + fst (perturb 0 0 seed), y + snd (perturb 0 0 seed))
   \<and> fst (perturb x y seed) - x = fst (perturb x' y' seed) - x'
   \<and> snd (perturb x y seed) - y = snd (perturb x' y' seed) - y'
   \<and> fst (perturb 0 0 seed) \<in> {-1, 0, 1}
   \<and> snd (perturb 0 0 seed) \<in> {-1, 0, 1}"
proof -
  have m: "(n :: int) mod 3 - 1 \<in> {-1, 0, 1}" for n
  proof -
    have "0 \<le> n mod 3" and "n mod 3 < 3" by simp_all
    then show ?thesis by auto
  qed
  have "fst (perturb 0 0 seed) \<in> {-1, 0, 1}"
    using m by (simp add: perturb_def Let_def)
  moreover have "snd (perturb 0 0 seed) \<in> {-1, 0, 1}"
    using m by (simp add: perturb_def Let_def)
  ultimately show ?thesis
    by (simp add: perturb_def Let_def)
qed

section \<open>Evaluation of concrete inputs\<close>

lemma replicate_2: "replicate 2 x = [x, x]"
  by (simp add: numeral_2_eq_2)

lemma replicate_3: "replicate 3 x = [x, x, x]"
  by (simp add: numeral_3_eq_3)

lemmas symbol_eval = symbol_def PALETTE_def ascii_def py_int_def py_repeat_def replicate_2 replicate_3

lemmas render_eval = composite_def render_def render_mark_def list_get_def list_set_def
  blank_grid_def render_text_def rstrip_def isspace_def legend_text_def ORDER_def

section \<open>Rendering\<close>

lemma shaped_blank: "shaped fld (blank_grid fld)"
  by (simp add: shaped_def blank_grid_def)

lemma shaped_with_cell: "shaped fld g \<Longrightarrow> shaped fld (with_cell g cx cy c)"
proof (cases "nat cy < length g")
  case True
  assume "shaped fld g"
  with True show ?thesis
    by (auto simp: shaped_def with_cell_def nth_list_update)
next
  case False
  assume "shaped fld g"
  with False show ?thesis
    by (simp add: with_cell_def list_update_beyond)
qed

lemma render_mark_eq:
  assumes "shaped (self st) (grid st)"
  shows "render_mark m st =
     Inr (if in_bounds (self st) m
             \<and> fst (cell_at (grid st) (mark_x m) (mark_y m)) \<le> mark_tone m
          then st\<lparr>grid := with_cell (grid st) (mark_x m) (mark_y m)
                    (mark_tone m, symbol (mark_tag m) (mark_tone m))\<rparr>
          else st)"
proof (cases "in_bounds (self st) m")
  case False
  then have "render_mark m st = Inr st"
    unfolding render_mark_def in_bounds_def by (simp only: if_False)
  with False show ?thesis by simp
next
  case True
  then have y: "0 \<le> mark_y m" "mark_y m < int (length (grid st))"
    and x: "0 \<le> mark_x m" "mark_x m < width (self st)"
    using assms by (auto simp: in_bounds_def shaped_def)
  have "nat (mark_y m) < length (grid st)"
    using y by linarith
  then have row: "length (grid st ! nat (mark_y m)) = nat (width (self st))"
    using assms by (simp add: shaped_def)
  have gy: "list_get (grid st) (mark_y m) = Inr (grid st ! nat (mark_y m))"
    using y by (simp add: list_get_def)
  have gx: "list_get (grid st ! nat (mark_y m)) (mark_x m) = Inr (cell_at (grid st) (mark_x m) (mark_y m))"
    using x row by (simp add: list_get_def cell_at_def)
  have sx: "list_set (grid st ! nat (mark_y m)) (mark_x m) v = Inr ((grid st ! nat (mark_y m))[nat (mark_x m) := v])" for v
    using x row by (simp add: list_set_def)
  have sy: "list_set (grid st) (mark_y m) r = Inr ((grid st)[nat (mark_y m) := r])" for r
    using y by (simp add: list_set_def)
  from True have "render_mark m st =
      (case cell_at (grid st) (mark_x m) (mark_y m) of
         (old_tone, old_ch) \<Rightarrow>
           if old_tone \<le> mark_tone m
           then Inr (st\<lparr>grid := with_cell (grid st) (mark_x m) (mark_y m)
                      (mark_tone m, symbol (mark_tag m) (mark_tone m))\<rparr>)
           else Inr st)"
    unfolding render_mark_def in_bounds_def
    by (simp add: gy gx sx sy with_cell_def split: prod.splits)
  with True show ?thesis
    by (simp split: prod.splits)
qed

lemma render_mark_self: "shaped (self st) (grid st) \<Longrightarrow> render_mark m st = Inr st' \<Longrightarrow> self st' = self st \<and> shaped (self st') (grid st')"
  by (auto simp: render_mark_eq shaped_with_cell split: if_splits)

lemma render_marks_total:
  "shaped (self st) (grid st) \<Longrightarrow>
     \<exists>st'. render_marks ms st = Inr st' \<and> self st' = self st \<and> shaped (self st') (grid st')"
proof (induction ms arbitrary: st)
  case Nil
  then show ?case by simp
next
  case (Cons m ms)
  obtain st1 where 1: "render_mark m st = Inr st1"
    using render_mark_eq [OF Cons.prems] by blast
  have 2: "self st1 = self st" "shaped (self st1) (grid st1)"
    using render_mark_self [OF Cons.prems 1] by blast+
  from Cons.IH [OF 2(2)] 1 2 show ?case by auto
qed

lemma render_marks_append:
  "render_marks (ms @ ms') st =
     (case render_marks ms st of Inl e \<Rightarrow> Inl e | Inr st' \<Rightarrow> render_marks ms' st')"
  by (induction ms arbitrary: st) (auto split: sum.splits)

lemma render_layers_marks: "render_layers ls st = render_marks (all_marks ls) st"
  by (induction ls arbitrary: st) (auto simp: all_marks_def render_marks_append split: sum.splits)

lemma composite_total:
  "\<exists>g. composite fld = Inr \<lparr>self = fld, grid = g\<rparr> \<and> shaped fld g"
proof -
  let ?st = "\<lparr>self = fld, grid = blank_grid fld\<rparr>"
  have "shaped (self ?st) (grid ?st)" by (simp add: shaped_blank)
  from render_marks_total [OF this, of "all_marks (layers fld)"]
  obtain st' where "render_marks (all_marks (layers fld)) ?st = Inr st'" "self st' = fld" "shaped fld (grid st')"
    by auto
  then show ?thesis
    unfolding composite_def render_layers_marks
    by (intro exI [of _ "grid st'"]) (cases st', simp)
qed

lemma render_mark_oob:
  "\<not> in_bounds (self st) m \<Longrightarrow> render_mark m st = Inr st"
  unfolding render_mark_def in_bounds_def by (simp only: if_False)

lemma render_marks_oob:
  assumes "shaped (self st) (grid st)" and "\<not> in_bounds (self st) m"
  shows "render_marks (ms1 @ m # ms2) st = render_marks (ms1 @ ms2) st"
proof -
  obtain st1 where 1: "render_marks ms1 st = Inr st1" "self st1 = self st"
    using render_marks_total [OF assms(1)] by blast
  then have "render_mark m st1 = Inr st1"
    using assms(2) by (simp add: render_mark_oob)
  with 1 show ?thesis
    by (simp add: render_marks_append)
qed

lemma render_marks_self:
  assumes "shaped (self st) (grid st)"
    and "width f2 = width (self st)" and "height f2 = height (self st)"
    and "render_marks ms st = Inr st'"
  shows "render_marks ms (st\<lparr>self := f2\<rparr>) = Inr (st'\<lparr>self := f2\<rparr>)"
  using assms
proof (induction ms arbitrary: st)
  case Nil
  then show ?case by simp
next
  case (Cons m ms)
  obtain st1 where 1: "render_mark m st = Inr st1"
    using render_mark_eq [OF Cons.prems(1)] by blast
  have 2: "self st1 = self st" "shaped (self st1) (grid st1)"
    using render_mark_self [OF Cons.prems(1) 1] by blast+
  have sh: "shaped (self (st\<lparr>self := f2\<rparr>)) (grid (st\<lparr>self := f2\<rparr>))"
    using Cons.prems(1-3) by (simp add: shaped_def)
  have ib: "in_bounds f2 m = in_bounds (self st) m"
    using Cons.prems(2,3) by (simp add: in_bounds_def)
  have 3: "render_mark m (st\<lparr>self := f2\<rparr>) = Inr (st1\<lparr>self := f2\<rparr>)"
    using 1 unfolding render_mark_eq [OF sh] render_mark_eq [OF Cons.prems(1)]
    by (auto simp: ib split: if_splits)
  from Cons.prems(4) 1 have 4: "render_marks ms st1 = Inr st'"
    by simp
  have "render_marks ms (st1\<lparr>self := f2\<rparr>) = Inr (st'\<lparr>self := f2\<rparr>)"
    using Cons.IH [OF 2(2) _ _ 4] Cons.prems(2,3) 2(1) by simp
  with 3 show ?case by simp
qed

lemma cell_at_blank:
  "0 \<le> cx \<Longrightarrow> cx < width fld \<Longrightarrow> 0 \<le> cy \<Longrightarrow> cy < height fld \<Longrightarrow>
     cell_at (blank_grid fld) cx cy = (0, ascii '' '')"
  by (simp add: cell_at_def blank_grid_def)

lemma cell_at_with_cell:
  "shaped fld g \<Longrightarrow> 0 \<le> cx \<Longrightarrow> cx < width fld \<Longrightarrow> 0 \<le> cy \<Longrightarrow> cy < height fld \<Longrightarrow>
     cell_at (with_cell g cx cy c) cx cy = c"
  by (simp add: cell_at_def with_cell_def shaped_def)

lemma with_cell_twice: "with_cell (with_cell g cx cy c) cx cy c' = with_cell g cx cy c'"
proof (cases "nat cy < length g")
  case True
  then show ?thesis by (simp add: with_cell_def)
next
  case False
  then show ?thesis by (simp add: with_cell_def list_update_beyond)
qed

lemma composite_marks:
  "composite fld = render_marks (all_marks (layers fld)) \<lparr>self = fld, grid = blank_grid fld\<rparr>"
  by (simp add: composite_def render_layers_marks)

lemma render_composite:
  "composite fld = Inr \<lparr>self = fld, grid = g\<rparr> \<Longrightarrow> render fld legend = Inr (render_text g legend, fld)"
  by (simp add: render_def)

lemma last_mark_wins:
  assumes marks: "all_marks (layers fld) = [a, b]"
    and xy: "mark_x a = mark_x b" "mark_y a = mark_y b"
    and inb: "in_bounds fld b"
    and tone: "mark_tone a \<le> mark_tone b" "0 \<le> mark_tone b"
  shows "composite fld = Inr \<lparr>self = fld, grid = with_cell (blank_grid fld) (mark_x b) (mark_y b)
            (mark_tone b, symbol (mark_tag b) (mark_tone b))\<rparr>"
proof -
  let ?st = "\<lparr>self = fld, grid = blank_grid fld\<rparr>"
  have sh: "shaped (self ?st) (grid ?st)"
    by (simp add: shaped_blank)
  have ina: "in_bounds fld a"
    using inb xy by (simp add: in_bounds_def)
  have blank: "cell_at (blank_grid fld) (mark_x b) (mark_y b) = (0, ascii '' '')"
    using inb by (simp add: cell_at_blank in_bounds_def)
  define st1 where "st1 = (if 0 \<le> mark_tone a
      then ?st\<lparr>grid := with_cell (blank_grid fld) (mark_x b) (mark_y b)
                  (mark_tone a, symbol (mark_tag a) (mark_tone a))\<rparr> else ?st)"
  have 1: "render_mark a ?st = Inr st1"
    unfolding render_mark_eq [OF sh] st1_def using ina blank xy by simp
  have sh1: "shaped (self st1) (grid st1)" and self1: "self st1 = fld"
    by (simp_all add: st1_def shaped_blank shaped_with_cell)
  have c1: "fst (cell_at (grid st1) (mark_x b) (mark_y b)) \<le> mark_tone b"
    using inb tone blank
    by (simp add: st1_def cell_at_with_cell [OF shaped_blank] in_bounds_def)
  have 2: "render_mark b st1 = Inr (st1\<lparr>grid := with_cell (grid st1) (mark_x b) (mark_y b)
            (mark_tone b, symbol (mark_tag b) (mark_tone b))\<rparr>)"
    unfolding render_mark_eq [OF sh1] using inb c1 self1 by simp
  have "with_cell (grid st1) (mark_x b) (mark_y b) c = with_cell (blank_grid fld) (mark_x b) (mark_y b) c" for c
    by (simp add: st1_def with_cell_twice)
  with 1 2 show ?thesis
    unfolding composite_marks marks by (simp add: st1_def)
qed

lemma first_mark_stays:
  assumes marks: "all_marks (layers fld) = [b, a]"
    and xy: "mark_x a = mark_x b" "mark_y a = mark_y b"
    and inb: "in_bounds fld b"
    and tone: "mark_tone a < mark_tone b" "0 \<le> mark_tone b"
  shows "composite fld = Inr \<lparr>self = fld, grid = with_cell (blank_grid fld) (mark_x b) (mark_y b)
            (mark_tone b, symbol (mark_tag b) (mark_tone b))\<rparr>"
proof -
  let ?st = "\<lparr>self = fld, grid = blank_grid fld\<rparr>"
  let ?st1 = "?st\<lparr>grid := with_cell (blank_grid fld) (mark_x b) (mark_y b)
                  (mark_tone b, symbol (mark_tag b) (mark_tone b))\<rparr>"
  have sh: "shaped (self ?st) (grid ?st)"
    by (simp add: shaped_blank)
  have ina: "in_bounds fld a"
    using inb xy by (simp add: in_bounds_def)
  have blank: "cell_at (blank_grid fld) (mark_x b) (mark_y b) = (0, ascii '' '')"
    using inb by (simp add: cell_at_blank in_bounds_def)
  have 1: "render_mark b ?st = Inr ?st1"
    unfolding render_mark_eq [OF sh] using inb blank tone by simp
  have sh1: "shaped (self ?st1) (grid ?st1)"
    by (simp add: shaped_blank shaped_with_cell)
  have c1: "\<not> fst (cell_at (grid ?st1) (mark_x a) (mark_y a)) \<le> mark_tone a"
    using inb tone xy
    by (simp add: cell_at_with_cell [OF shaped_blank] in_bounds_def)
  have 2: "render_mark a ?st1 = Inr ?st1"
    unfolding render_mark_eq [OF sh1] using c1 by simp
  from 1 2 show ?thesis
    unfolding composite_marks marks by simp
qed

text \<open>
  C8. \<open>render\<close> is read-only: for every Field and either value of \<open>legend\<close> the call
  returns a string and leaves the Field as it was (width, height, the sequence of
  layers and every mark of every layer).
\<close>

theorem render_read_only:
  "\<exists>s. render fld legend = Inr (s, fld)"
  using composite_total [of fld] by (auto simp: render_def)

text \<open>
  C1 (as the code has it). Tone override: when the deposited layers of a Field hold
  exactly two marks, both at the same in-bounds coordinate, with tones \<open>t1 < t2\<close> and
  \<open>t2\<close> not negative, the composed grid is blank but for that cell, which holds the
  symbol of the mark with tone \<open>t2\<close>, and \<open>render\<close> returns the text of that grid,
  whichever of the two marks is processed first and whichever layers hold them.
\<close>

theorem tone_override:
  assumes "all_marks (layers fld) = [m1, m2] \<or> all_marks (layers fld) = [m2, m1]"
    and "mark_x m1 = mark_x m2" and "mark_y m1 = mark_y m2"
    and "0 \<le> mark_x m2 \<and> mark_x m2 < width fld"
    and "0 \<le> mark_y m2 \<and> mark_y m2 < height fld"
    and "mark_tone m1 < mark_tone m2"
    and "0 \<le> mark_tone m2"
  shows "\<exists>g. composite fld = Inr \<lparr>self = fld, grid = g\<rparr>
           \<and> g = with_cell (blank_grid fld) (mark_x m2) (mark_y m2)
                  (mark_tone m2, symbol (mark_tag m2) (mark_tone m2))
           \<and> cell_at g (mark_x m2) (mark_y m2) = (mark_tone m2, symbol (mark_tag m2) (mark_tone m2))
           \<and> render fld legend = Inr (render_text g legend, fld)"
proof -
  have inb: "in_bounds fld m2"
    using assms(4,5) by (simp add: in_bounds_def)
  let ?g = "with_cell (blank_grid fld) (mark_x m2) (mark_y m2)
              (mark_tone m2, symbol (mark_tag m2) (mark_tone m2))"
  have comp: "composite fld = Inr \<lparr>self = fld, grid = ?g\<rparr>"
    using assms(1)
  proof
    assume "all_marks (layers fld) = [m1, m2]"
    from last_mark_wins [OF this assms(2,3) inb _ assms(7)] assms(6)
    show ?thesis by simp
  next
    assume "all_marks (layers fld) = [m2, m1]"
    from first_mark_stays [OF this assms(2,3) inb assms(6,7)]
    show ?thesis .
  qed
  have "cell_at ?g (mark_x m2) (mark_y m2) = (mark_tone m2, symbol (mark_tag m2) (mark_tone m2))"
    using assms(4,5) by (simp add: cell_at_with_cell [OF shaped_blank])
  with comp render_composite [OF comp] show ?thesis
    by blast
qed


theorem tone_override_witness:
  "all_marks (layers fld_override) = [m_turn, m_care]
   \<and> mark_tone m_care < mark_tone m_turn
   \<and> render fld_override False = Inr ([8743, 8743], fld_override)"
proof -
  have marks: "all_marks (layers fld_override) = [m_turn, m_care]"
    by (simp add: fld_override_def all_marks_def)
  have "\<exists>g. composite fld_override = Inr \<lparr>self = fld_override, grid = g\<rparr>
           \<and> g = with_cell (blank_grid fld_override) (mark_x m_turn) (mark_y m_turn)
                  (mark_tone m_turn, symbol (mark_tag m_turn) (mark_tone m_turn))
           \<and> cell_at g (mark_x m_turn) (mark_y m_turn)
               = (mark_tone m_turn, symbol (mark_tag m_turn) (mark_tone m_turn))
           \<and> render fld_override False = Inr (render_text g False, fld_override)"
    by (rule tone_override [of fld_override m_care m_turn False])
       (simp_all add: marks, simp_all add: m_care_def m_turn_def fld_override_def)
  then have "render fld_override False
      = Inr (render_text (with_cell (blank_grid fld_override) 0 0 (3/4, [8743, 8743])) False,
             fld_override)"
    by (auto simp: m_turn_def symbol_eval)
  moreover have "render_text (with_cell (blank_grid fld_override) 0 0 (3/4, [8743, 8743])) False
      = [8743, 8743]"
    by (simp add: fld_override_def with_cell_def blank_grid_def render_text_def rstrip_def
        isspace_def)
  ultimately show ?thesis
    using marks by (simp add: m_care_def m_turn_def)
qed

text \<open>
  C1 as the specification words it has no bound on the tones. A cell starts at tone 0
  and a mark replaces it only with a tone at least as high, so two marks with the tones
  \<open>-1 < -1/2\<close> leave the cell blank: it does not show the symbol of the higher one.
\<close>

theorem tone_override_counterexample:
  "all_marks (layers fld_negative) = [m_neg1, m_neg2]
   \<and> mark_x m_neg1 = mark_x m_neg2 \<and> mark_y m_neg1 = mark_y m_neg2
   \<and> 0 \<le> mark_x m_neg2 \<and> mark_x m_neg2 < width fld_negative
   \<and> 0 \<le> mark_y m_neg2 \<and> mark_y m_neg2 < height fld_negative
   \<and> mark_tone m_neg1 < mark_tone m_neg2
   \<and> composite fld_negative = Inr \<lparr>self = fld_negative, grid = [[(0, ascii '' '')]]\<rparr>
   \<and> symbol (mark_tag m_neg2) (mark_tone m_neg2) = [183]
   \<and> snd (cell_at [[(0, ascii '' '')]] 0 0) \<noteq> symbol (mark_tag m_neg2) (mark_tone m_neg2)
   \<and> render fld_negative False = Inr ([], fld_negative)"
  by (simp add: fld_negative_def m_neg1_def m_neg2_def all_marks_def cell_at_def
        symbol_eval render_eval)

text \<open>
  C4. Bounds safety: for every Field and every deposited mark with \<open>x\<close> outside
  \<open>[0, width)\<close> or \<open>y\<close> outside \<open>[0, height)\<close>, \<open>render\<close> returns normally, and
  the composed grid (so every in-bounds cell) and the returned text are those of the
  Field without that mark.
\<close>

theorem out_of_bounds_ignored:
  assumes "layers fld = pre @ \<lparr>marks = ms1 @ m # ms2\<rparr> # post"
    and "mark_x m < 0 \<or> width fld \<le> mark_x m \<or> mark_y m < 0 \<or> height fld \<le> mark_y m"
  shows "\<exists>g s. composite fld = Inr \<lparr>self = fld, grid = g\<rparr>
           \<and> composite (fld\<lparr>layers := pre @ \<lparr>marks = ms1 @ ms2\<rparr> # post\<rparr>)
               = Inr \<lparr>self = fld\<lparr>layers := pre @ \<lparr>marks = ms1 @ ms2\<rparr> # post\<rparr>, grid = g\<rparr>
           \<and> render fld legend = Inr (s, fld)
           \<and> render (fld\<lparr>layers := pre @ \<lparr>marks = ms1 @ ms2\<rparr> # post\<rparr>) legend
               = Inr (s, fld\<lparr>layers := pre @ \<lparr>marks = ms1 @ ms2\<rparr> # post\<rparr>)"
proof -
  let ?fld' = "fld\<lparr>layers := pre @ \<lparr>marks = ms1 @ ms2\<rparr> # post\<rparr>"
  let ?st = "\<lparr>self = fld, grid = blank_grid fld\<rparr>"
  obtain g where g: "composite fld = Inr \<lparr>self = fld, grid = g\<rparr>"
    using composite_total by blast
  have sh: "shaped (self ?st) (grid ?st)"
    by (simp add: shaped_blank)
  have oob: "\<not> in_bounds (self ?st) m"
    using assms(2) by (auto simp: in_bounds_def)
  have "all_marks (layers fld) = (all_marks pre @ ms1) @ m # (ms2 @ all_marks post)"
    by (simp add: assms(1) all_marks_def)
  moreover have "render_marks ((all_marks pre @ ms1) @ m # (ms2 @ all_marks post)) ?st
      = render_marks ((all_marks pre @ ms1) @ (ms2 @ all_marks post)) ?st"
    by (rule render_marks_oob [OF sh oob])
  ultimately have "composite fld
      = render_marks ((all_marks pre @ ms1) @ (ms2 @ all_marks post)) ?st"
    unfolding composite_marks by simp
  then have run: "render_marks (all_marks (layers ?fld')) ?st = Inr \<lparr>self = fld, grid = g\<rparr>"
    using g by (simp add: all_marks_def)
  have "render_marks (all_marks (layers ?fld')) (?st\<lparr>self := ?fld'\<rparr>)
      = Inr (\<lparr>self = fld, grid = g\<rparr>\<lparr>self := ?fld'\<rparr>)"
    by (rule render_marks_self [OF sh _ _ run]) simp_all
  then have g': "composite ?fld' = Inr \<lparr>self = ?fld', grid = g\<rparr>"
    unfolding composite_marks by (simp add: blank_grid_def)
  from g g' render_composite [OF g] render_composite [OF g'] show ?thesis
    by blast
qed

theorem out_of_bounds_ignored_witness:
  "render fld_far False = Inr ([8743, 8743], fld_far)
   \<and> render (fld_far\<lparr>layers := [\<lparr>marks = [m_turn]\<rparr>]\<rparr>) False
       = Inr ([8743, 8743], fld_far\<lparr>layers := [\<lparr>marks = [m_turn]\<rparr>]\<rparr>)"
proof -
  have l: "layers fld_far = [] @ \<lparr>marks = [m_turn] @ m_far # []\<rparr> # []"
    by (simp add: fld_far_def)
  have o: "mark_x m_far < 0 \<or> width fld_far \<le> mark_x m_far
      \<or> mark_y m_far < 0 \<or> height fld_far \<le> mark_y m_far"
    by (simp add: fld_far_def m_far_def)
  from out_of_bounds_ignored [OF l o, of False] obtain s where
    "render fld_far False = Inr (s, fld_far)"
    "render (fld_far\<lparr>layers := [\<lparr>marks = [m_turn]\<rparr>]\<rparr>) False
       = Inr (s, fld_far\<lparr>layers := [\<lparr>marks = [m_turn]\<rparr>]\<rparr>)"
    by auto
  moreover have "render (fld_far\<lparr>layers := [\<lparr>marks = [m_turn]\<rparr>]\<rparr>) False
       = Inr ([8743, 8743], fld_far\<lparr>layers := [\<lparr>marks = [m_turn]\<rparr>]\<rparr>)"
    by (simp add: fld_far_def m_turn_def symbol_eval render_eval)
  ultimately show ?thesis
    by simp
qed

text \<open>
  C5 (as the code has it). Tie-break: when the deposited layers of a Field hold exactly
  two marks at the same in-bounds coordinate with equal, non-negative tone, the one
  processed later (in a later layer, or later in the same layer) gives the cell its
  symbol.
\<close>

theorem tie_break:
  assumes "all_marks (layers fld) = [m1, m2]"
    and "mark_x m1 = mark_x m2" and "mark_y m1 = mark_y m2"
    and "0 \<le> mark_x m2 \<and> mark_x m2 < width fld"
    and "0 \<le> mark_y m2 \<and> mark_y m2 < height fld"
    and "mark_tone m1 = mark_tone m2"
    and "0 \<le> mark_tone m2"
  shows "\<exists>g. composite fld = Inr \<lparr>self = fld, grid = g\<rparr>
           \<and> g = with_cell (blank_grid fld) (mark_x m2) (mark_y m2)
                  (mark_tone m2, symbol (mark_tag m2) (mark_tone m2))
           \<and> cell_at g (mark_x m2) (mark_y m2) = (mark_tone m2, symbol (mark_tag m2) (mark_tone m2))
           \<and> render fld legend = Inr (render_text g legend, fld)"
proof -
  have inb: "in_bounds fld m2"
    using assms(4,5) by (simp add: in_bounds_def)
  let ?g = "with_cell (blank_grid fld) (mark_x m2) (mark_y m2)
              (mark_tone m2, symbol (mark_tag m2) (mark_tone m2))"
  have comp: "composite fld = Inr \<lparr>self = fld, grid = ?g\<rparr>"
    using last_mark_wins [OF assms(1-3) inb _ assms(7)] assms(6) by simp
  have "cell_at ?g (mark_x m2) (mark_y m2) = (mark_tone m2, symbol (mark_tag m2) (mark_tone m2))"
    using assms(4,5) by (simp add: cell_at_with_cell [OF shaped_blank])
  with comp render_composite [OF comp] show ?thesis
    by blast
qed

theorem tie_break_witness:
  "all_marks (layers fld_tie) = [m_tie1, m_tie2]
   \<and> mark_tone m_tie1 = mark_tone m_tie2
   \<and> render fld_tie False = Inr ([42, 42], fld_tie)"
proof -
  have marks: "all_marks (layers fld_tie) = [m_tie1, m_tie2]"
    by (simp add: fld_tie_def all_marks_def)
  have "\<exists>g. composite fld_tie = Inr \<lparr>self = fld_tie, grid = g\<rparr>
           \<and> g = with_cell (blank_grid fld_tie) (mark_x m_tie2) (mark_y m_tie2)
                  (mark_tone m_tie2, symbol (mark_tag m_tie2) (mark_tone m_tie2))
           \<and> cell_at g (mark_x m_tie2) (mark_y m_tie2)
               = (mark_tone m_tie2, symbol (mark_tag m_tie2) (mark_tone m_tie2))
           \<and> render fld_tie False = Inr (render_text g False, fld_tie)"
    by (rule tie_break [of fld_tie m_tie1 m_tie2 False])
       (simp_all add: marks, simp_all add: m_tie1_def m_tie2_def fld_tie_def)
  then have "render fld_tie False
      = Inr (render_text (with_cell (blank_grid fld_tie) 0 0 (1/2, [42, 42])) False, fld_tie)"
    by (auto simp: m_tie2_def symbol_eval)
  moreover have "render_text (with_cell (blank_grid fld_tie) 0 0 (1/2, [42, 42])) False
      = [42, 42]"
    by (simp add: fld_tie_def with_cell_def blank_grid_def render_text_def rstrip_def
        isspace_def)
  ultimately show ?thesis
    using marks by (simp add: m_tie1_def m_tie2_def)
qed

text \<open>
  C5 as the specification words it has no bound on the tone. Two marks of tone
  \<open>-1/2\<close> in two layers leave the cell blank: it does not show the symbol of the mark
  in the later layer.
\<close>

theorem tie_break_counterexample:
  "layers fld_low = [\<lparr>marks = [m_low1]\<rparr>, \<lparr>marks = [m_low2]\<rparr>]
   \<and> mark_x m_low1 = mark_x m_low2 \<and> mark_y m_low1 = mark_y m_low2
   \<and> 0 \<le> mark_x m_low2 \<and> mark_x m_low2 < width fld_low
   \<and> 0 \<le> mark_y m_low2 \<and> mark_y m_low2 < height fld_low
   \<and> mark_tone m_low1 = mark_tone m_low2
   \<and> composite fld_low = Inr \<lparr>self = fld_low, grid = [[(0, ascii '' '')]]\<rparr>
   \<and> symbol (mark_tag m_low2) (mark_tone m_low2) = [42]
   \<and> snd (cell_at [[(0, ascii '' '')]] 0 0) \<noteq> symbol (mark_tag m_low2) (mark_tone m_low2)
   \<and> render fld_low False = Inr ([], fld_low)"
  by (simp add: fld_low_def m_low1_def m_low2_def cell_at_def symbol_eval render_eval)


section \<open>Inscribing a path\<close>

lemma py_range_nat: "py_range (int n) = map int [0..<n]"
proof (induction n)
  case 0
  then show ?case by (simp add: py_range_def)
next
  case (Suc n)
  have "[0..int (Suc n) - 1] = [0..int n - 1] @ [int n]"
    using upto_rec2 [of 0 "int n"] by simp
  with Suc show ?case by (simp add: py_range_def)
qed

lemma py_range_neg: "n \<le> 0 \<Longrightarrow> py_range n = []"
  by (simp add: py_range_def)

lemma py_range_eq: "py_range steps = map int [0..<nat steps]"
proof (cases "0 \<le> steps")
  case True
  then obtain n where "steps = int n"
    using nonneg_int_cases by blast
  then show ?thesis by (simp add: py_range_nat)
next
  case False
  then show ?thesis by (simp add: py_range_neg)
qed

lemma inscribe_loop_path:
  assumes "path_pos tag stride origin k = (x, y)"
  shows "inscribe_loop (map int [k..<k + n]) tag stride tone (x, y, layer)
   = (fst (path_pos tag stride origin (k + n)), snd (path_pos tag stride origin (k + n)),
      layer\<lparr>marks := marks layer @ map (path_mark tag stride tone origin) [k..<k + n]\<rparr>)"
  using assms
proof (induction n arbitrary: k x y layer)
  case 0
  then show ?case by simp
next
  case (Suc n)
  obtain px py where p: "perturb x y (int k + fold_trace [tag]) = (px, py)"
    by (cases "perturb x y (int k + fold_trace [tag])")
  obtain x' y' where a: "advance tag stride (int k) (x, y) = (x', y')"
    by (cases "advance tag stride (int k) (x, y)")
  let ?m = "\<lparr>mark_x = px, mark_y = py, mark_tone = tone, mark_tag = tag\<rparr>"
  have m: "path_mark tag stride tone origin k = ?m"
    by (simp add: path_mark_def Suc.prems p)
  have next_pos: "path_pos tag stride origin (Suc k) = (x', y')"
    by (simp add: Suc.prems a)
  have split: "[k..<k + Suc n] = k # [Suc k..<Suc k + n]"
    by (simp add: upt_rec)
  have "inscribe_loop (map int [k..<k + Suc n]) tag stride tone (x, y, layer)
      = inscribe_loop (map int [Suc k..<Suc k + n]) tag stride tone (x', y', Layer_add layer [?m])"
    unfolding split by (simp add: p a)
  also have "\<dots> = (fst (path_pos tag stride origin (Suc k + n)),
      snd (path_pos tag stride origin (Suc k + n)),
      (Layer_add layer [?m])\<lparr>marks := marks (Layer_add layer [?m])
          @ map (path_mark tag stride tone origin) [Suc k..<Suc k + n]\<rparr>)"
    by (rule Suc.IH [OF next_pos])
  also have "\<dots> = (fst (path_pos tag stride origin (k + Suc n)),
      snd (path_pos tag stride origin (k + Suc n)),
      layer\<lparr>marks := marks layer @ map (path_mark tag stride tone origin) [k..<k + Suc n]\<rparr>)"
    unfolding split by (simp add: Layer_add_def m)
  finally show ?case .
qed

text \<open>
  C3. Path generation: \<open>inscribe\<close> emits exactly \<open>steps\<close> marks (none when \<open>steps\<close>
  is not positive); the mark at index \<open>i\<close> has the given tone and tag and lies at
  \<open>perturb x\<^sub>i y\<^sub>i (i + fold_trace [tag])\<close>, where \<open>(x\<^sub>0, y\<^sub>0)\<close> is the origin and
  \<open>(x\<^sub>i\<^sub>+\<^sub>1, y\<^sub>i\<^sub>+\<^sub>1)\<close> comes from the unperturbed \<open>(x\<^sub>i, y\<^sub>i)\<close> by the step rule of
  the tag (\<open>path_pos\<close>, \<open>path_mark\<close>); the layer is appended to the Field's layers
  and returned.
\<close>

theorem inscribe_path:
  "(case inscribe fld origin steps tag stride tone of
      (layer, fld') \<Rightarrow>
        length (marks layer) = nat steps
        \<and> (\<forall>i < nat steps. marks layer ! i = path_mark tag stride tone origin i)
        \<and> (steps \<le> 0 \<longrightarrow> marks layer = [])
        \<and> fld' = deposit fld layer
        \<and> layers fld' = layers fld @ [layer]
        \<and> width fld' = width fld \<and> height fld' = height fld)"
proof -
  obtain ox oy where o: "origin = (ox, oy)"
    by (cases origin)
  have "path_pos tag stride origin 0 = (ox, oy)"
    by (simp add: o)
  from inscribe_loop_path [OF this, of "nat steps" tone "\<lparr>marks = []\<rparr>"]
  have "inscribe_loop (py_range steps) tag stride tone (ox, oy, \<lparr>marks = []\<rparr>)
      = (fst (path_pos tag stride origin (nat steps)),
         snd (path_pos tag stride origin (nat steps)),
         \<lparr>marks = map (path_mark tag stride tone origin) [0..<nat steps]\<rparr>)"
    by (simp add: py_range_eq)
  then have "inscribe fld origin steps tag stride tone
      = (\<lparr>marks = map (path_mark tag stride tone origin) [0..<nat steps]\<rparr>,
         deposit fld \<lparr>marks = map (path_mark tag stride tone origin) [0..<nat steps]\<rparr>)"
    by (simp add: inscribe_def o)
  then show ?thesis
    by (simp add: deposit_def)
qed

lemma fold_trace_ask: "fold_trace [ascii ''ask''] = 97"
  by (simp add: fold_trace_def ascii_def)

lemma path_mark_ask:
  "path_mark (ascii ''ask'') 1 (9/20) (2, 3) 0 = marks layer_ask3 ! 0"
  "path_mark (ascii ''ask'') 1 (9/20) (2, 3) 1 = marks layer_ask3 ! 1"
  "path_mark (ascii ''ask'') 1 (9/20) (2, 3) 2 = marks layer_ask3 ! 2"
  by (simp_all add: path_mark_def fold_trace_ask perturb_def advance_def layer_ask3_def
        numeral_2_eq_2)

theorem inscribe_path_witness:
  "inscribe fld_empty (2, 3) 3 (ascii ''ask'') 1 (9/20)
     = (layer_ask3, fld_empty\<lparr>layers := [layer_ask3]\<rparr>)"
proof -
  obtain layer fld' where r: "inscribe fld_empty (2, 3) 3 (ascii ''ask'') 1 (9/20) = (layer, fld')"
    by (cases "inscribe fld_empty (2, 3) 3 (ascii ''ask'') 1 (9/20)")
  from inscribe_path [where fld = fld_empty and origin = "(2, 3)" and steps = 3
      and tag = "ascii ''ask''" and stride = 1 and tone = "9/20"] r
  have len: "length (marks layer) = 3"
    and nth: "\<forall>i < 3. marks layer ! i = path_mark (ascii ''ask'') 1 (9/20) (2, 3) i"
    and fld: "fld' = deposit fld_empty layer"
    by simp_all
  have "marks layer = marks layer_ask3"
  proof (rule nth_equalityI)
    show "length (marks layer) = length (marks layer_ask3)"
      by (simp add: len layer_ask3_def)
    fix i assume "i < length (marks layer)"
    then have "i = 0 \<or> i = 1 \<or> i = 2"
      using len by auto
    then show "marks layer ! i = marks layer_ask3 ! i"
      using nth path_mark_ask by auto
  qed
  then have "layer = layer_ask3"
    by simp
  with r fld show ?thesis
    by (simp add: deposit_def fld_empty_def)
qed

section \<open>Braiding layers\<close>

lemma braid_mark_bag: "braid_mark m st = st\<lparr>bag := bag_put m (bag st)\<rparr>"
  by (cases "map_of (bag st) (mark_x m, mark_y m)")
     (simp_all add: braid_mark_def bag_put_def coord_def Let_def)

lemma braid_marks_bag: "braid_marks ms st = st\<lparr>bag := foldl (\<lambda>b m. bag_put m b) (bag st) ms\<rparr>"
  by (induction ms arbitrary: st) (simp_all add: braid_mark_bag)

lemma braid_layers_bag:
  "braid_layers ls st = st\<lparr>bag := foldl (\<lambda>b m. bag_put m b) (bag st) (all_marks ls)\<rparr>"
  by (induction ls arbitrary: st) (simp_all add: braid_marks_bag all_marks_def)

lemma braid_eq:
  "braid ls fs = \<lparr>live_fields = fs, args = ls,
      bag = foldl (\<lambda>b m. bag_put m b) [] (all_marks ls),
      merged = \<lparr>marks = map snd (foldl (\<lambda>b m. bag_put m b) [] (all_marks ls))\<rparr>\<rparr>"
  by (simp add: braid_def braid_layers_bag)

lemma wins_iff:
  "wins ms c i \<longleftrightarrow>
     i < length ms \<and> coord (ms ! i) = c
     \<and> (\<forall>j. j < length ms \<longrightarrow> coord (ms ! j) = c \<longrightarrow>
           mark_tone (ms ! j) \<le> mark_tone (ms ! i)
           \<and> (i < j \<longrightarrow> mark_tone (ms ! j) < mark_tone (ms ! i)))"
  unfolding wins_def Ball_def lessThan_iff by blast

lemma wins_less: "wins ms c i \<Longrightarrow> wins ms c j \<Longrightarrow> \<not> i < j"
proof
  assume wi: "wins ms c i" and wj: "wins ms c j" and lt: "i < j"
  from wj have j: "j < length ms" "coord (ms ! j) = c"
    by (simp_all add: wins_iff)
  from wi have i: "i < length ms" "coord (ms ! i) = c"
    by (simp_all add: wins_iff)
  from wi j lt have "mark_tone (ms ! j) < mark_tone (ms ! i)"
    unfolding wins_iff by blast
  moreover from wj i have "mark_tone (ms ! i) \<le> mark_tone (ms ! j)"
    unfolding wins_iff by blast
  ultimately show False by simp
qed

lemma wins_unique: "wins ms c i \<Longrightarrow> wins ms c j \<Longrightarrow> i = j"
  using wins_less [of ms c i j] wins_less [of ms c j i] by linarith

lemma nth_snoc_old: "j < length ms \<Longrightarrow> (ms @ [m]) ! j = ms ! j"
  by (simp add: nth_append)

lemma nth_snoc_new: "(ms @ [m]) ! length ms = m"
  by simp

lemma wins_snoc_other:
  assumes "coord m \<noteq> c"
  shows "wins (ms @ [m]) c i \<longleftrightarrow> wins ms c i"
proof
  assume w: "wins (ms @ [m]) c i"
  then have "i < Suc (length ms)" and ci: "coord ((ms @ [m]) ! i) = c"
    by (simp_all add: wins_iff)
  with assms have i: "i < length ms"
    by (cases "i = length ms") auto
  have "mark_tone (ms ! j) \<le> mark_tone (ms ! i)
         \<and> (i < j \<longrightarrow> mark_tone (ms ! j) < mark_tone (ms ! i))"
    if j: "j < length ms" and cj: "coord (ms ! j) = c" for j
  proof -
    from j have "j < length (ms @ [m])" by simp
    moreover from j cj have "coord ((ms @ [m]) ! j) = c" by (simp add: nth_snoc_old)
    ultimately have "mark_tone ((ms @ [m]) ! j) \<le> mark_tone ((ms @ [m]) ! i)
         \<and> (i < j \<longrightarrow> mark_tone ((ms @ [m]) ! j) < mark_tone ((ms @ [m]) ! i))"
      using w unfolding wins_iff by blast
    with i j show ?thesis by (simp add: nth_snoc_old)
  qed
  with i ci show "wins ms c i"
    unfolding wins_iff by (simp add: nth_snoc_old)
next
  assume w: "wins ms c i"
  then have i: "i < length ms" and ci: "coord (ms ! i) = c"
    by (simp_all add: wins_iff)
  have "mark_tone ((ms @ [m]) ! j) \<le> mark_tone ((ms @ [m]) ! i)
         \<and> (i < j \<longrightarrow> mark_tone ((ms @ [m]) ! j) < mark_tone ((ms @ [m]) ! i))"
    if j: "j < length (ms @ [m])" and cj: "coord ((ms @ [m]) ! j) = c" for j
  proof -
    from j cj assms have jl: "j < length ms"
      by (cases "j = length ms") auto
    with cj have "coord (ms ! j) = c" by (simp add: nth_snoc_old)
    with jl w have "mark_tone (ms ! j) \<le> mark_tone (ms ! i)
         \<and> (i < j \<longrightarrow> mark_tone (ms ! j) < mark_tone (ms ! i))"
      unfolding wins_iff by blast
    with i jl show ?thesis by (simp add: nth_snoc_old)
  qed
  moreover have "i < length (ms @ [m])" using i by simp
  moreover have "coord ((ms @ [m]) ! i) = c" using i ci by (simp add: nth_snoc_old)
  ultimately show "wins (ms @ [m]) c i"
    unfolding wins_iff by blast
qed

lemma wins_snoc_new:
  assumes "\<And>j. j < length ms \<Longrightarrow> coord (ms ! j) = coord m \<Longrightarrow> mark_tone (ms ! j) \<le> mark_tone m"
  shows "wins (ms @ [m]) (coord m) (length ms)"
proof -
  have "mark_tone ((ms @ [m]) ! j) \<le> mark_tone ((ms @ [m]) ! length ms)
         \<and> (length ms < j \<longrightarrow> mark_tone ((ms @ [m]) ! j) < mark_tone ((ms @ [m]) ! length ms))"
    if j: "j < length (ms @ [m])" and cj: "coord ((ms @ [m]) ! j) = coord m" for j
  proof (cases "j = length ms")
    case True
    with j show ?thesis by simp
  next
    case False
    with j have jl: "j < length ms" by simp
    with cj have "coord (ms ! j) = coord m" by (simp add: nth_snoc_old)
    from assms [OF jl this] jl show ?thesis by (simp add: nth_snoc_old)
  qed
  moreover have "length ms < length (ms @ [m])" by simp
  moreover have "coord ((ms @ [m]) ! length ms) = coord m" by simp
  ultimately show ?thesis
    unfolding wins_iff by blast
qed

lemma wins_snoc_old:
  assumes w: "wins ms (coord m) i" and lt: "mark_tone m < mark_tone (ms ! i)"
  shows "wins (ms @ [m]) (coord m) i"
proof -
  from w have i: "i < length ms" and ci: "coord (ms ! i) = coord m"
    by (simp_all add: wins_iff)
  have "mark_tone ((ms @ [m]) ! j) \<le> mark_tone ((ms @ [m]) ! i)
         \<and> (i < j \<longrightarrow> mark_tone ((ms @ [m]) ! j) < mark_tone ((ms @ [m]) ! i))"
    if j: "j < length (ms @ [m])" and cj: "coord ((ms @ [m]) ! j) = coord m" for j
  proof (cases "j = length ms")
    case True
    with i lt show ?thesis by (simp add: nth_snoc_old)
  next
    case False
    with j have jl: "j < length ms" by simp
    with cj have "coord (ms ! j) = coord m" by (simp add: nth_snoc_old)
    with jl w have "mark_tone (ms ! j) \<le> mark_tone (ms ! i)
         \<and> (i < j \<longrightarrow> mark_tone (ms ! j) < mark_tone (ms ! i))"
      unfolding wins_iff by blast
    with i jl show ?thesis by (simp add: nth_snoc_old)
  qed
  moreover have "i < length (ms @ [m])" using i by simp
  moreover have "coord ((ms @ [m]) ! i) = coord m" using i ci by (simp add: nth_snoc_old)
  ultimately show ?thesis
    unfolding wins_iff by blast
qed

lemma wins_bound: "wins ms c i \<Longrightarrow> i < length ms \<and> coord (ms ! i) = c"
  by (simp add: wins_iff)

lemma wins_max:
  "wins ms c i \<Longrightarrow> j < length ms \<Longrightarrow> coord (ms ! j) = c \<Longrightarrow> mark_tone (ms ! j) \<le> mark_tone (ms ! i)"
  unfolding wins_iff by blast

lemma map_of_bag_put_other: "c \<noteq> coord m \<Longrightarrow> map_of (bag_put m b) c = map_of b c"
  by (cases "map_of b (coord m)") (simp_all add: bag_put_def update_conv')

lemma map_of_bag_put_new: "map_of b (coord m) = None \<Longrightarrow> map_of (bag_put m b) (coord m) = Some m"
  by (simp add: bag_put_def update_conv')

lemma map_of_bag_put_le:
  "map_of b (coord m) = Some old \<Longrightarrow> mark_tone old \<le> mark_tone m \<Longrightarrow>
     map_of (bag_put m b) (coord m) = Some m"
  by (simp add: bag_put_def update_conv')

lemma map_of_bag_put_gt:
  "map_of b (coord m) = Some old \<Longrightarrow> \<not> mark_tone old \<le> mark_tone m \<Longrightarrow>
     map_of (bag_put m b) (coord m) = Some old"
  by (simp add: bag_put_def)

lemma distinct_bag_put: "distinct (map fst b) \<Longrightarrow> distinct (map fst (bag_put m b))"
  by (cases "map_of b (coord m)") (simp_all add: bag_put_def distinct_update)

lemma bag_put_winner:
  assumes inv: "bag_inv ms b"
  shows "\<exists>i. wins (ms @ [m]) (coord m) i \<and> map_of (bag_put m b) (coord m) = Some ((ms @ [m]) ! i)"
proof (cases "map_of b (coord m)")
  case None
  with inv have none: "coord m \<notin> coord ` set ms"
    unfolding bag_inv_def by blast
  have "mark_tone (ms ! j) \<le> mark_tone m" if "j < length ms" "coord (ms ! j) = coord m" for j
    using that none by (metis image_eqI nth_mem)
  then have "wins (ms @ [m]) (coord m) (length ms)"
    by (rule wins_snoc_new)
  moreover have "map_of (bag_put m b) (coord m) = Some ((ms @ [m]) ! length ms)"
    using None by (simp add: map_of_bag_put_new)
  ultimately show ?thesis by blast
next
  case (Some old)
  with inv obtain i where i: "wins ms (coord m) i" "old = ms ! i"
    unfolding bag_inv_def by blast
  then have il: "i < length ms"
    by (simp add: wins_bound)
  show ?thesis
  proof (cases "mark_tone old \<le> mark_tone m")
    case True
    have "mark_tone (ms ! j) \<le> mark_tone m" if "j < length ms" "coord (ms ! j) = coord m" for j
      using wins_max [OF i(1) that] True i(2) by simp
    then have "wins (ms @ [m]) (coord m) (length ms)"
      by (rule wins_snoc_new)
    moreover have "map_of (bag_put m b) (coord m) = Some ((ms @ [m]) ! length ms)"
      using Some True by (simp add: map_of_bag_put_le)
    ultimately show ?thesis by blast
  next
    case False
    then have "mark_tone m < mark_tone (ms ! i)"
      using i(2) by simp
    with i(1) have "wins (ms @ [m]) (coord m) i"
      by (rule wins_snoc_old)
    moreover have "map_of (bag_put m b) (coord m) = Some ((ms @ [m]) ! i)"
      using Some False i(2) il by (simp add: map_of_bag_put_gt nth_snoc_old)
    ultimately show ?thesis by blast
  qed
qed

lemma bag_inv_step:
  assumes inv: "bag_inv ms b"
  shows "bag_inv (ms @ [m]) (bag_put m b)"
proof -
  have d: "distinct (map fst (bag_put m b))"
    using inv by (simp add: bag_inv_def distinct_bag_put)
  have none: "c \<notin> coord ` set (ms @ [m])" if n: "map_of (bag_put m b) c = None" for c
  proof (cases "c = coord m")
    case True
    with bag_put_winner [OF inv, of m] n show ?thesis by simp
  next
    case False
    with n have "map_of b c = None" by (simp add: map_of_bag_put_other)
    with inv have "c \<notin> coord ` set ms" unfolding bag_inv_def by blast
    with False show ?thesis by auto
  qed
  have some: "\<exists>i. wins (ms @ [m]) c i \<and> r = (ms @ [m]) ! i"
    if s: "map_of (bag_put m b) c = Some r" for c r
  proof (cases "c = coord m")
    case True
    with bag_put_winner [OF inv, of m] s show ?thesis by auto
  next
    case False
    with s have "map_of b c = Some r" by (simp add: map_of_bag_put_other)
    with inv obtain i where i: "wins ms c i" "r = ms ! i"
      unfolding bag_inv_def by blast
    then have "i < length ms" by (simp add: wins_bound)
    with i False have "wins (ms @ [m]) c i \<and> r = (ms @ [m]) ! i"
      by (simp add: wins_snoc_other nth_snoc_old)
    then show ?thesis by blast
  qed
  from d none some show ?thesis
    unfolding bag_inv_def by blast
qed

lemma bag_inv_foldl: "bag_inv ms (foldl (\<lambda>b m. bag_put m b) [] ms)"
proof (induction ms rule: rev_induct)
  case Nil
  then show ?case by (simp add: bag_inv_def)
next
  case (snoc m ms)
  then show ?case by (simp add: bag_inv_step)
qed

lemma bag_inv_entry:
  assumes "bag_inv ms b" and "(k, v) \<in> set b"
  shows "\<exists>i. wins ms k i \<and> v = ms ! i"
proof -
  from assms have "map_of b k = Some v"
    by (simp add: bag_inv_def)
  with assms(1) show ?thesis
    unfolding bag_inv_def by blast
qed

lemma bag_inv_coord:
  assumes "bag_inv ms b" and "p \<in> set b"
  shows "coord (snd p) = fst p" and "snd p \<in> set ms"
proof -
  obtain k v where p: "p = (k, v)" by (cases p)
  with assms bag_inv_entry obtain i where "wins ms k i" "v = ms ! i" by blast
  then show "coord (snd p) = fst p" and "snd p \<in> set ms"
    using p wins_bound [of ms k i] by auto
qed


lemma braid_marks_eq:
  "marks (merged (braid ls fs)) = map snd (foldl (\<lambda>b m. bag_put m b) [] (all_marks ls))"
  by (simp add: braid_eq)





text \<open>
  C10. Braid output invariants: the marks of the layer returned by \<open>braid\<close> have
  pairwise distinct coordinates, each of them occurs in an input layer, the argument
  layers are as they were, and so is every Field alive at the call.
\<close>

theorem braid_invariants:
  "distinct (map coord (marks (merged (braid ls fs))))
   \<and> set (marks (merged (braid ls fs))) \<subseteq> set (all_marks ls)
   \<and> args (braid ls fs) = ls
   \<and> live_fields (braid ls fs) = fs"
proof -
  let ?ms = "all_marks ls"
  let ?b = "foldl (\<lambda>b m. bag_put m b) [] ?ms"
  have inv: "bag_inv ?ms ?b"
    by (rule bag_inv_foldl)
  have "map coord (map snd ?b) = map fst ?b"
    using bag_inv_coord(1) [OF inv] by simp
  moreover have "distinct (map fst ?b)"
    using inv by (simp add: bag_inv_def)
  ultimately have "distinct (map coord (marks (merged (braid ls fs))))"
    unfolding braid_marks_eq by (simp only:)
  moreover have "set (marks (merged (braid ls fs))) \<subseteq> set ?ms"
    unfolding braid_marks_eq using bag_inv_coord(2) [OF inv] by auto
  ultimately show ?thesis
    by (simp add: braid_eq)
qed

end
